theory Spec2Isabelle
  imports Main "HOL-Library.Word" "HOL-Library.AList"
begin

unbundle bit_operations_syntax

section \<open>JavaScript values and strings\<close>

text \<open>
  The values that travel through the session store, the cache and the provider
  responses are JSON values. A JavaScript string is modelled as a \<open>string\<close>
  (code units below 256), a number as an integer: fractions, exponents, \<open>NaN\<close>
  inside stored data and integers beyond the safe range are outside the model.
  An object is the list of its own properties in the order they were written; that an
  engine lists keys that look like array indices first is not modelled.
\<close>

datatype json =
    JNull
  | JBool bool
  | JNum int
  | JStr string
  | JArr "json list"
  | JObj "(string \<times> json) list"

datatype error =
    SyntaxError
  | TypeError
  | RedisError
  | NoEmbeddingReturned
  | EmbedRequestFailed
  | SearchRequestFailed
  | ModelRequestFailed

definition dq :: char where "dq = CHR 0x22"
definition bsl :: char where "bsl = CHR 0x5C"
definition nl :: char where "nl = CHR 0x0A"

text \<open>Truthiness of a value, as \<open>if (v)\<close>, \<open>v || d\<close> and \<open>!v\<close> test it.\<close>

fun truthy :: "json \<Rightarrow> bool" where
  "truthy JNull = False"
| "truthy (JBool b) = b"
| "truthy (JNum n) = (n \<noteq> 0)"
| "truthy (JStr s) = (s \<noteq> [])"
| "truthy (JArr xs) = True"
| "truthy (JObj kvs) = True"

subsection \<open>Numbers as text\<close>

text \<open>\<open>charCodeAt\<close>: the code unit of a character.\<close>

definition code :: "char \<Rightarrow> nat" where
  "code c = of_char c"

definition digit_char :: "nat \<Rightarrow> char" where
  "digit_char d = char_of (48 + d)"

definition hex_char :: "nat \<Rightarrow> char" where
  "hex_char d = (if d < 10 then char_of (48 + d) else char_of (87 + d))"

function show_nat :: "nat \<Rightarrow> string" where
  "show_nat n = (if n < 10 then [digit_char n] else show_nat (n div 10) @ [digit_char (n mod 10)])"
  by pat_completeness auto
termination
  by (relation "measure id") auto

function show_hex :: "nat \<Rightarrow> string" where
  "show_hex n = (if n < 16 then [hex_char n] else show_hex (n div 16) @ [hex_char (n mod 16)])"
  by pat_completeness auto
termination
  by (relation "measure id") auto

declare show_nat.simps [simp del]
declare show_hex.simps [simp del]

definition show_int :: "int \<Rightarrow> string" where
  "show_int i = (if i < 0 then CHR ''-'' # show_nat (nat (- i)) else show_nat (nat i))"

definition is_digit :: "char \<Rightarrow> bool" where
  "is_digit c = (48 \<le> code c \<and> code c \<le> 57)"

definition digit_val :: "char \<Rightarrow> nat" where
  "digit_val c = code c - 48"

definition digits_val :: "string \<Rightarrow> nat" where
  "digits_val ds = foldl (\<lambda>acc c. acc * 10 + digit_val c) 0 ds"

fun intercalate :: "'a list \<Rightarrow> 'a list list \<Rightarrow> 'a list" where
  "intercalate sep [] = []"
| "intercalate sep [x] = x"
| "intercalate sep (x # y # ys) = x @ sep @ intercalate sep (y # ys)"

subsection \<open>\<open>JSON.stringify\<close>\<close>

definition escape_char :: "char \<Rightarrow> string" where
  "escape_char c =
     (if c = dq then [bsl, dq]
      else if c = bsl then [bsl, bsl]
      else if c = CHR 0x08 then [bsl, CHR ''b'']
      else if c = CHR 0x09 then [bsl, CHR ''t'']
      else if c = CHR 0x0A then [bsl, CHR ''n'']
      else if c = CHR 0x0C then [bsl, CHR ''f'']
      else if c = CHR 0x0D then [bsl, CHR ''r'']
      else if code c < 32
        then [bsl, CHR ''u'', CHR ''0'', CHR ''0'', hex_char (code c div 16), hex_char (code c mod 16)]
      else [c])"

definition quote :: "string \<Rightarrow> string" where
  "quote s = dq # concat (map escape_char s) @ [dq]"

fun stringify :: "json \<Rightarrow> string" where
  "stringify JNull = ''null''"
| "stringify (JBool b) = (if b then ''true'' else ''false'')"
| "stringify (JNum n) = show_int n"
| "stringify (JStr s) = quote s"
| "stringify (JArr xs) = ''['' @ intercalate '','' (map stringify xs) @ '']''"
| "stringify (JObj kvs) =
     ''{'' @ intercalate '','' (map (\<lambda>(k, v). quote k @ '':'' @ stringify v) kvs) @ ''}''"

subsection \<open>\<open>JSON.parse\<close>\<close>

datatype pfail = BadSyntax | NoFuel

definition is_ws :: "char \<Rightarrow> bool" where
  "is_ws c = (c = CHR '' '' \<or> c = CHR 0x09 \<or> c = CHR 0x0A \<or> c = CHR 0x0D)"

definition skip_ws :: "string \<Rightarrow> string" where
  "skip_ws cs = dropWhile is_ws cs"

definition hex_val :: "char \<Rightarrow> nat option" where
  "hex_val c =
     (if 48 \<le> code c \<and> code c \<le> 57 then Some (code c - 48)
      else if 97 \<le> code c \<and> code c \<le> 102 then Some (code c - 87)
      else if 65 \<le> code c \<and> code c \<le> 70 then Some (code c - 55)
      else None)"

text \<open>A \<open>\uXXXX\<close> escape; a code unit of 256 or more has no \<open>char\<close> and is refused.\<close>

definition hex4 :: "char \<Rightarrow> char \<Rightarrow> char \<Rightarrow> char \<Rightarrow> char option" where
  "hex4 a b c d =
     (case (hex_val a, hex_val b, hex_val c, hex_val d) of
        (Some x, Some y, Some z, Some w) \<Rightarrow>
          (if x = 0 \<and> y = 0 then Some (char_of (z * 16 + w)) else None)
      | _ \<Rightarrow> None)"

definition unescape :: "char \<Rightarrow> char option" where
  "unescape e =
     (if e = dq then Some dq
      else if e = bsl then Some bsl
      else if e = CHR ''/'' then Some (CHR ''/'')
      else if e = CHR ''b'' then Some (CHR 0x08)
      else if e = CHR ''f'' then Some (CHR 0x0C)
      else if e = CHR ''n'' then Some (CHR 0x0A)
      else if e = CHR ''r'' then Some (CHR 0x0D)
      else if e = CHR ''t'' then Some (CHR 0x09)
      else None)"

definition cons_fst :: "'a \<Rightarrow> ('a list \<times> 'b) option \<Rightarrow> ('a list \<times> 'b) option" where
  "cons_fst c r = (case r of None \<Rightarrow> None | Some (s, t) \<Rightarrow> Some (c # s, t))"

text \<open>The body of a string literal, after its opening quote, up to the closing one.\<close>

fun parse_str :: "string \<Rightarrow> (string \<times> string) option" where
  "parse_str [] = None"
| "parse_str (c # cs) =
     (if c = dq then Some ([], cs)
      else if c = bsl then
        (case cs of
           [] \<Rightarrow> None
         | e # r \<Rightarrow>
             if e = CHR ''u'' then
               (case r of
                  h1 # h2 # h3 # h4 # r' \<Rightarrow>
                    (case hex4 h1 h2 h3 h4 of
                       None \<Rightarrow> None
                     | Some ch \<Rightarrow> cons_fst ch (parse_str r'))
                | _ \<Rightarrow> None)
             else
               (case unescape e of
                  None \<Rightarrow> None
                | Some ch \<Rightarrow> cons_fst ch (parse_str r)))
      else if code c < 32 then None
      else cons_fst c (parse_str cs))"

text \<open>
  A number literal: an optional minus, then \<open>0\<close> or a digit sequence without a leading
  zero. A fraction or an exponent is refused (integers only).
\<close>

definition parse_num :: "string \<Rightarrow> (int \<times> string) option" where
  "parse_num cs =
     (let neg = (cs \<noteq> [] \<and> hd cs = CHR ''-'');
          r = (if neg then tl cs else cs);
          ds = takeWhile is_digit r;
          rest = dropWhile is_digit r
      in if ds = [] then None
         else if hd ds = CHR ''0'' \<and> length ds > 1 then None
         else if rest \<noteq> [] \<and> hd rest \<in> {CHR ''.'', CHR ''e'', CHR ''E''} then None
         else Some (if neg then - int (digits_val ds) else int (digits_val ds), rest))"

text \<open>
  A repeated key keeps its first position and takes its last value, as property
  assignment does.
\<close>

definition assign_all :: "(string \<times> json) list \<Rightarrow> (string \<times> json) list" where
  "assign_all kvs = foldl (\<lambda>acc (k, v). AList.update k v acc) [] kvs"

fun parse_val :: "nat \<Rightarrow> string \<Rightarrow> pfail + (json \<times> string)"
and parse_elems :: "nat \<Rightarrow> string \<Rightarrow> pfail + (json list \<times> string)"
and parse_members :: "nat \<Rightarrow> string \<Rightarrow> pfail + ((string \<times> json) list \<times> string)"
where
  "parse_val 0 cs = Inl NoFuel"
| "parse_val (Suc n) cs =
     (case skip_ws cs of
        [] \<Rightarrow> Inl BadSyntax
      | c # r \<Rightarrow>
          if c = CHR ''['' then
            (case skip_ws r of
               [] \<Rightarrow> Inl BadSyntax
             | d # r' \<Rightarrow>
                 if d = CHR '']'' then Inr (JArr [], r')
                 else (case parse_elems n r of
                         Inl e \<Rightarrow> Inl e
                       | Inr (vs, r'') \<Rightarrow> Inr (JArr vs, r'')))
          else if c = CHR ''{'' then
            (case skip_ws r of
               [] \<Rightarrow> Inl BadSyntax
             | d # r' \<Rightarrow>
                 if d = CHR ''}'' then Inr (JObj [], r')
                 else (case parse_members n r of
                         Inl e \<Rightarrow> Inl e
                       | Inr (kvs, r'') \<Rightarrow> Inr (JObj (assign_all kvs), r'')))
          else if c = dq then
            (case parse_str r of
               None \<Rightarrow> Inl BadSyntax
             | Some (s, r') \<Rightarrow> Inr (JStr s, r'))
          else if c = CHR ''-'' \<or> is_digit c then
            (case parse_num (c # r) of
               None \<Rightarrow> Inl BadSyntax
             | Some (i, r') \<Rightarrow> Inr (JNum i, r'))
          else if take 4 (c # r) = ''null'' then Inr (JNull, drop 4 (c # r))
          else if take 4 (c # r) = ''true'' then Inr (JBool True, drop 4 (c # r))
          else if take 5 (c # r) = ''false'' then Inr (JBool False, drop 5 (c # r))
          else Inl BadSyntax)"
| "parse_elems 0 cs = Inl NoFuel"
| "parse_elems (Suc n) cs =
     (case parse_val n cs of
        Inl e \<Rightarrow> Inl e
      | Inr (v, r) \<Rightarrow>
          (case skip_ws r of
             [] \<Rightarrow> Inl BadSyntax
           | d # r' \<Rightarrow>
               if d = CHR '','' then
                 (case parse_elems n r' of
                    Inl e \<Rightarrow> Inl e
                  | Inr (vs, r'') \<Rightarrow> Inr (v # vs, r''))
               else if d = CHR '']'' then Inr ([v], r')
               else Inl BadSyntax))"
| "parse_members 0 cs = Inl NoFuel"
| "parse_members (Suc n) cs =
     (case skip_ws cs of
        [] \<Rightarrow> Inl BadSyntax
      | d # r \<Rightarrow>
          if d = dq then
            (case parse_str r of
               None \<Rightarrow> Inl BadSyntax
             | Some (k, r1) \<Rightarrow>
                 (case skip_ws r1 of
                    [] \<Rightarrow> Inl BadSyntax
                  | e # r2 \<Rightarrow>
                      if e = CHR '':'' then
                        (case parse_val n r2 of
                           Inl e \<Rightarrow> Inl e
                         | Inr (v, r3) \<Rightarrow>
                             (case skip_ws r3 of
                                [] \<Rightarrow> Inl BadSyntax
                              | f # r4 \<Rightarrow>
                                  if f = CHR '','' then
                                    (case parse_members n r4 of
                                       Inl e \<Rightarrow> Inl e
                                     | Inr (kvs, r5) \<Rightarrow> Inr ((k, v) # kvs, r5))
                                  else if f = CHR ''}'' then Inr ([(k, v)], r4)
                                  else Inl BadSyntax))
                      else Inl BadSyntax))
          else Inl BadSyntax)"

text \<open>
  \<open>JSON.parse\<close>: one value, then only white space. The recursion is bounded by a
  fuel of twice the length of the text plus one, which is never used up
  (lemma \<open>json_parse_fuel\<close>).
\<close>

definition json_parse :: "string \<Rightarrow> pfail + json" where
  "json_parse s =
     (case parse_val (2 * length s + 1) s of
        Inl e \<Rightarrow> Inl e
      | Inr (v, r) \<Rightarrow> if skip_ws r = [] then Inr v else Inl BadSyntax)"

text \<open>
  An object value is well formed when no key occurs twice in it, at any depth: every
  JavaScript object is, since a property name has one value.
\<close>

fun wf_json :: "json \<Rightarrow> bool" where
  "wf_json (JArr xs) = list_all wf_json xs"
| "wf_json (JObj kvs) = (distinct (map fst kvs) \<and> list_all (\<lambda>kv. wf_json (snd kv)) kvs)"
| "wf_json v = True"

definition member_text :: "string \<times> json \<Rightarrow> string" where
  "member_text kv = quote (fst kv) @ '':'' @ stringify (snd kv)"

definition value_start :: "char \<Rightarrow> bool" where
  "value_start c = (\<not> is_ws c \<and> c \<noteq> CHR '']'' \<and> c \<noteq> CHR ''}'')"

definition num_stop :: "string \<Rightarrow> bool" where
  "num_stop rest =
     (rest = [] \<or> (\<not> is_digit (hd rest) \<and> hd rest \<notin> {CHR ''.'', CHR ''e'', CHR ''E''}))"

definition val_ok :: "nat \<Rightarrow> bool" where
  "val_ok n = (\<forall>cs. 2 * length cs < n \<longrightarrow>
      parse_val n cs \<noteq> Inl NoFuel \<and>
      (\<forall>v r. parse_val n cs = Inr (v, r) \<longrightarrow> length r < length cs))"

definition elems_ok :: "nat \<Rightarrow> bool" where
  "elems_ok n = (\<forall>cs. 2 * length cs + 1 < n \<longrightarrow>
      parse_elems n cs \<noteq> Inl NoFuel \<and>
      (\<forall>v r. parse_elems n cs = Inr (v, r) \<longrightarrow> length r < length cs))"

definition members_ok :: "nat \<Rightarrow> bool" where
  "members_ok n = (\<forall>cs. 2 * length cs + 1 < n \<longrightarrow>
      parse_members n cs \<noteq> Inl NoFuel \<and>
      (\<forall>v r. parse_members n cs = Inr (v, r) \<longrightarrow> length r < length cs))"

section \<open>The key-value store and the outside world\<close>

text \<open>
  The Redis client is the only state. A key holds a text and, when it was set with
  \<open>EX\<close>, the instant at which it expires; the clock advances only between calls.
  The trace records every command sent to the store and every request sent to a
  provider, so that "no call was made" can be stated.
\<close>

datatype event =
    RedisGet string
  | RedisSet string string "int option"
  | RedisKeys
  | EmbedRequest string
  | SearchRequest json "int option"
  | ModelRequest string

record world =
  kv :: "(string \<times> string \<times> nat option) list"
  clock :: nat
  trace :: "event list"

text \<open>
  The providers are outside the repository: each is a function from the request to the
  response body, \<open>None\<close> when the request fails. \<open>search_api\<close> gives the hits of
  the vector index in rank order, each with its payload (\<open>null\<close> when the point has
  none).
\<close>

record hit =
  payload :: json

record env =
  embed_api :: "string \<Rightarrow> json option"
  search_api :: "json \<Rightarrow> int option \<Rightarrow> hit list option"
  model_api :: "string \<Rightarrow> json option"
  SESSION_TTL :: int

type_synonym 'a io = "world \<Rightarrow> (error + 'a) \<times> world"

definition ret :: "'a \<Rightarrow> 'a io" where
  "ret x w = (Inr x, w)"

definition throw :: "error \<Rightarrow> 'a io" where
  "throw e w = (Inl e, w)"

text \<open>\<open>await m\<close> and then the rest of the function; a rejection skips the rest.\<close>

definition await :: "'a io \<Rightarrow> ('a \<Rightarrow> 'b io) \<Rightarrow> 'b io" where
  "await m f w = (case m w of (Inl e, w') \<Rightarrow> (Inl e, w') | (Inr x, w') \<Rightarrow> f x w')"

definition log_event :: "event \<Rightarrow> world \<Rightarrow> world" where
  "log_event ev w = w\<lparr>trace := trace w @ [ev]\<rparr>"

definition live :: "world \<Rightarrow> nat option \<Rightarrow> bool" where
  "live w ex = (case ex of None \<Rightarrow> True | Some t \<Rightarrow> clock w < t)"

definition lookup :: "world \<Rightarrow> string \<Rightarrow> string option" where
  "lookup w k =
     (case map_of (kv w) k of
        None \<Rightarrow> None
      | Some (v, ex) \<Rightarrow> if live w ex then Some v else None)"

definition client_get :: "string \<Rightarrow> string option io" where
  "client_get k w = (Inr (lookup w k), log_event (RedisGet k) w)"

text \<open>
  \<open>client.set(k, v, {EX: ttl})\<close>: the store refuses an expiry that is not positive and
  keeps what it had; otherwise value and expiry are replaced together.
\<close>

definition client_set :: "string \<Rightarrow> string \<Rightarrow> int \<Rightarrow> unit io" where
  "client_set k v ttl w =
     (if ttl \<le> 0 then (Inl RedisError, log_event (RedisSet k v (Some ttl)) w)
      else (Inr (),
            log_event (RedisSet k v (Some ttl))
              (w\<lparr>kv := AList.update k (v, Some (clock w + nat ttl)) (kv w)\<rparr>)))"

text \<open>\<open>client.set(k, v)\<close> without expiry, as the start-up probe does.\<close>

definition client_set_persistent :: "string \<Rightarrow> string \<Rightarrow> unit io" where
  "client_set_persistent k v w =
     (Inr (), log_event (RedisSet k v None) (w\<lparr>kv := AList.update k (v, None) (kv w)\<rparr>))"

definition client_keys :: "string list io" where
  "client_keys w =
     (Inr (map fst (filter (\<lambda>(k, v, ex). live w ex) (kv w))), log_event RedisKeys w)"


definition startup_probe :: "string option io" where
  "startup_probe = await (client_set_persistent ''foo'' ''bar'') (\<lambda>_. client_get ''foo'')"

section \<open>sessionManager.js\<close>

definition JSON_parse :: "string \<Rightarrow> json io" where
  "JSON_parse s = (case json_parse s of Inl _ \<Rightarrow> throw SyntaxError | Inr v \<Rightarrow> ret v)"

text \<open>\<open>sessionId || uuid.v4()\<close>; the fresh identifier is given by the caller of the model.\<close>

definition effective_id :: "string \<Rightarrow> string option \<Rightarrow> string" where
  "effective_id uuid sessionId =
     (case sessionId of None \<Rightarrow> uuid | Some s \<Rightarrow> if s \<noteq> [] then s else uuid)"

definition createSession :: "string \<Rightarrow> string option \<Rightarrow> int \<Rightarrow> string io" where
  "createSession uuid sessionId ttl =
     (let id = effective_id uuid sessionId
      in await (client_set id (stringify (JArr [])) ttl) (\<lambda>_. ret id))"

text \<open>\<open>data ? JSON.parse(data) : null\<close>: a missing key and an empty text both give \<open>null\<close>.\<close>

definition getSession :: "string \<Rightarrow> json io" where
  "getSession sessionId =
     await (client_get sessionId)
       (\<lambda>data. case data of
                  None \<Rightarrow> ret JNull
                | Some d \<Rightarrow> if d \<noteq> [] then JSON_parse d else ret JNull)"



definition saveSession :: "string \<Rightarrow> json \<Rightarrow> int \<Rightarrow> json io" where
  "saveSession sessionId history ttl =
     await (client_set sessionId (stringify history) ttl) (\<lambda>_. ret history)"

definition clearSession :: "string \<Rightarrow> int \<Rightarrow> json io" where
  "clearSession sessionId ttl =
     await (client_set sessionId (stringify (JArr [])) ttl) (\<lambda>_. ret (JArr []))"

definition cacheSet :: "string \<Rightarrow> json \<Rightarrow> int \<Rightarrow> unit io" where
  "cacheSet key val ttl =
     client_set key (case val of JStr s \<Rightarrow> s | _ \<Rightarrow> stringify val) ttl"

definition cacheGet :: "string \<Rightarrow> json io" where
  "cacheGet key =
     await (client_get key)
       (\<lambda>v. case v of
               None \<Rightarrow> ret JNull
             | Some s \<Rightarrow> if s \<noteq> [] then JSON_parse s else ret JNull)"

text \<open>\<open>s.includes(t)\<close> of the source: \<open>t\<close> occurs somewhere in \<open>s\<close>.\<close>

fun str_includes :: "string \<Rightarrow> string \<Rightarrow> bool" where
  "str_includes [] t = (t = [])"
| "str_includes (c # cs) t = (take (length t) (c # cs) = t \<or> str_includes cs t)"

definition key_filter :: "string \<Rightarrow> bool" where
  "key_filter key = (\<not> (str_includes key ''embed:'' \<or> str_includes key ''retrieve:'') \<and> length key \<ge> 5)"

definition getAllKeys :: "string list io" where
  "getAllKeys = await client_keys (\<lambda>keys. ret (filter key_filter keys))"

section \<open>reg.js\<close>

text \<open>
  \<open>simpleHash\<close>: the loop keeps \<open>h\<close> as a 32-bit integer (\<open>Math.imul\<close> wraps, \<open>^=\<close>
  works on 32 bits) and prints it unsigned in base 16.
\<close>

definition simpleHash :: "string \<Rightarrow> string" where
  "simpleHash s =
     show_hex (unat (foldl (\<lambda>h c. (h XOR word_of_nat (code c)) * 16777619)
                          (2166136261 :: 32 word) s))"

text \<open>The characters \<open>trim()\<close> removes, among the code units below 256.\<close>

definition is_js_space :: "char \<Rightarrow> bool" where
  "is_js_space c = (code c \<in> {9, 10, 11, 12, 13, 32, 160})"

text \<open>
  Optional chaining. \<open>opt_prop name a\<close> is \<open>a?.name\<close> and \<open>opt_first a\<close> is \<open>a?.[0]\<close>, with
  \<open>None\<close> for \<open>undefined\<close>; the names read in this program are own properties of
  objects only.
\<close>

definition opt_prop :: "string \<Rightarrow> json option \<Rightarrow> json option" where
  "opt_prop name a = (case a of Some (JObj kvs) \<Rightarrow> map_of kvs name | _ \<Rightarrow> None)"

definition opt_first :: "json option \<Rightarrow> json option" where
  "opt_first a =
     (case a of
        Some (JArr xs) \<Rightarrow> (case xs of [] \<Rightarrow> None | x # _ \<Rightarrow> Some x)
      | Some (JStr s) \<Rightarrow> (case s of [] \<Rightarrow> None | c # _ \<Rightarrow> Some (JStr [c]))
      | Some (JObj kvs) \<Rightarrow> map_of kvs ''0''
      | _ \<Rightarrow> None)"

definition embed_request :: "env \<Rightarrow> string \<Rightarrow> json io" where
  "embed_request E text w =
     (case embed_api E text of
        None \<Rightarrow> (Inl EmbedRequestFailed, log_event (EmbedRequest text) w)
      | Some d \<Rightarrow> (Inr d, log_event (EmbedRequest text) w))"

definition embed_key :: "string \<Rightarrow> string" where
  "embed_key text = ''embed:'' @ simpleHash text"

definition getEmbedding :: "env \<Rightarrow> string \<Rightarrow> json io" where
  "getEmbedding E text =
     (if list_all is_js_space text then ret JNull
      else
        await (cacheGet (embed_key text))
          (\<lambda>cached.
             if truthy cached then ret cached
             else
               await (embed_request E text)
                 (\<lambda>data.
                    case opt_prop ''embedding'' (opt_first (opt_prop ''data'' (Some data))) of
                      None \<Rightarrow> throw NoEmbeddingReturned
                    | Some embedding \<Rightarrow>
                        if \<not> truthy embedding then throw NoEmbeddingReturned
                        else await (cacheSet (embed_key text) embedding (60 * 60 * 24))
                               (\<lambda>_. ret embedding))))"





text \<open>
  The text a value takes inside a template literal. An array joins its elements with
  commas, \<open>null\<close> elements being empty; a plain object is \<open>[object Object]\<close>, and one
  that has a \<open>toString\<close> property of its own, which cannot be called, has no text
  (\<open>None\<close>: a TypeError).
\<close>

fun js_string :: "json \<Rightarrow> string option" where
  "js_string JNull = Some ''null''"
| "js_string (JBool b) = Some (if b then ''true'' else ''false'')"
| "js_string (JNum n) = Some (show_int n)"
| "js_string (JStr s) = Some s"
| "js_string (JArr xs) =
     map_option (intercalate '','')
       (those (map (\<lambda>x. if x = JNull then Some [] else js_string x) xs))"
| "js_string (JObj kvs) =
     (if ''toString'' \<in> set (map fst kvs) then None
      else Some ''[object Object]'')"

definition and_then :: "error + 'a \<Rightarrow> ('a \<Rightarrow> error + 'b) \<Rightarrow> error + 'b" where
  "and_then r f = (case r of Inl e \<Rightarrow> Inl e | Inr x \<Rightarrow> f x)"

definition template :: "json option \<Rightarrow> error + string" where
  "template v =
     (case v of
        None \<Rightarrow> Inr ''undefined''
      | Some x \<Rightarrow> (case js_string x of None \<Rightarrow> Inl TypeError | Some s \<Rightarrow> Inr s))"

text \<open>\<open>h.name\<close>: reading a property of \<open>null\<close> throws.\<close>

definition member :: "json \<Rightarrow> string \<Rightarrow> error + json option" where
  "member h name =
     (case h of
        JNull \<Rightarrow> Inl TypeError
      | JObj kvs \<Rightarrow> Inr (map_of kvs name)
      | _ \<Rightarrow> Inr None)"

text \<open>\<open>xs.map((x, i) => f(i, x))\<close>, stopping at the first exception.\<close>

fun map_indexed :: "(nat \<Rightarrow> 'a \<Rightarrow> error + 'b) \<Rightarrow> nat \<Rightarrow> 'a list \<Rightarrow> error + 'b list" where
  "map_indexed f i [] = Inr []"
| "map_indexed f i (x # xs) =
     and_then (f i x) (\<lambda>y. and_then (map_indexed f (Suc i) xs) (\<lambda>ys. Inr (y # ys)))"

text \<open>The receiver of \<open>.map\<close> must be an array.\<close>

definition as_array :: "json \<Rightarrow> error + json list" where
  "as_array v = (case v of JArr xs \<Rightarrow> Inr xs | _ \<Rightarrow> Inl TypeError)"

definition render_turn :: "nat \<Rightarrow> json \<Rightarrow> error + string" where
  "render_turn i h =
     and_then (member h ''query'') (\<lambda>q. and_then (template q)
       (\<lambda>qs. and_then (member h ''answer'') (\<lambda>a. and_then (template a)
          (\<lambda>as. Inr (''Q'' @ show_nat (i + 1) @ '': '' @ qs @ [nl]
                      @ ''A'' @ show_nat (i + 1) @ '': '' @ as)))))"

definition render_passage :: "nat \<Rightarrow> json \<Rightarrow> error + string" where
  "render_passage i p =
     and_then (member p ''title'') (\<lambda>t. and_then (template t)
       (\<lambda>ts. and_then (member p ''content'') (\<lambda>c. and_then (template c)
          (\<lambda>cs. Inr (''[Passage '' @ show_nat (i + 1) @ '']'' @ [nl]
                      @ ''Title: '' @ ts @ [nl] @ ''Content: '' @ cs)))))"

definition instructions :: string where
  "instructions =
     ''\<newline>\<newline>Instructions:\<newline>1) Use only the passages above and conversation history.''
     @ ''\<newline>2) Be concise and don't invent facts.''
     @ ''\<newline>3) If answer is not in context, reply: \"Information not available in the retrieved passages.\"''
     @ ''\<newline>4) If user query is a general/basic message (e.g., greetings, small talk like 'how are you'), reply politely in a conversational way.''
     @ ''\<newline>\<newline>Answer:''"

definition buildPromptWithHistory :: "json \<Rightarrow> string \<Rightarrow> json \<Rightarrow> error + string" where
  "buildPromptWithHistory history query passages =
     and_then (as_array (if truthy history then history else JArr []))
       (\<lambda>hs. and_then (map_indexed render_turn 0 hs)
          (\<lambda>turns. and_then (as_array passages)
             (\<lambda>ps. and_then (map_indexed render_passage 0 ps)
                (\<lambda>blocks.
                   let histText = intercalate [nl] turns;
                       context = intercalate [nl, nl] blocks
                   in Inr ((if histText \<noteq> []
                            then ''Conversation so far:'' @ [nl] @ histText @ [nl, nl]
                            else [])
                           @ ''Context:'' @ [nl] @ context @ [nl, nl] @ ''User: '' @ query
                           @ instructions)))))"





section \<open>The chat endpoint\<close>

datatype response =
    Sent nat json
  | Failed nat string error








text \<open>\<open>GET /sessions/:id/history\<close>: \<open>null\<close> is answered 404.\<close>

definition history_handler :: "string \<Rightarrow> world \<Rightarrow> response \<times> world" where
  "history_handler sessionId w =
     (case getSession sessionId w of
        (Inr h, w') \<Rightarrow>
          if h = JNull then (Sent 404 (JObj [(''error'', JStr ''session not found'')]), w')
          else (Sent 200 (JObj [(''sessionId'', JStr sessionId), (''history'', h)]), w')
      | (Inl e, w') \<Rightarrow> (Failed 500 ''failed to load session'' e, w'))"

section \<open>Vocabulary of the properties\<close>

text \<open>What the store holds under a key: the text and its expiry, expired or not.\<close>

definition stored :: "world \<Rightarrow> string \<Rightarrow> (string \<times> nat option) option" where
  "stored w k = map_of (kv w) k"








text \<open>\<open>s.startsWith(t)\<close> and \<open>s.endsWith(t)\<close>.\<close>

definition starts_with :: "string \<Rightarrow> string \<Rightarrow> bool" where
  "starts_with s t = (take (length t) s = t)"

definition ends_with :: "string \<Rightarrow> string \<Rightarrow> bool" where
  "ends_with s t = (length t \<le> length s \<and> drop (length s - length t) s = t)"

text \<open>
  The key filter as the specification words it: keys with the prefix \<open>embed:\<close> or
  \<open>retrieve:\<close> and keys shorter than 5 characters are left out.
\<close>

definition spec_key_filter :: "string \<Rightarrow> bool" where
  "spec_key_filter key =
     (\<not> starts_with key ''embed:'' \<and> \<not> starts_with key ''retrieve:'' \<and> length key \<ge> 5)"

definition live_keys :: "world \<Rightarrow> string list" where
  "live_keys w = map fst (filter (\<lambda>(k, v, ex). live w ex) (kv w))"

text \<open>Turns and passages as the chat endpoint and the index produce them.\<close>

definition turn_json :: "string \<times> string \<Rightarrow> json" where
  "turn_json t = JObj [(''query'', JStr (fst t)), (''answer'', JStr (snd t))]"

definition passage_json :: "string \<times> string \<times> json \<Rightarrow> json" where
  "passage_json p =
     JObj [(''title'', JStr (fst p)), (''content'', JStr (fst (snd p))), (''link'', snd (snd p))]"

text \<open>The prompt as the specification words it, numbering from 1.\<close>

definition spec_qa_lines :: "nat \<times> string \<times> string \<Rightarrow> string" where
  "spec_qa_lines it =
     ''Q'' @ show_nat (fst it) @ '': '' @ fst (snd it) @ [nl]
     @ ''A'' @ show_nat (fst it) @ '': '' @ snd (snd it)"

definition spec_passage_block :: "nat \<times> string \<times> string \<times> json \<Rightarrow> string" where
  "spec_passage_block ip =
     ''[Passage '' @ show_nat (fst ip) @ '']'' @ [nl]
     @ ''Title: '' @ fst (snd ip) @ [nl] @ ''Content: '' @ fst (snd (snd ip))"

definition spec_conversation_block :: "(string \<times> string) list \<Rightarrow> string" where
  "spec_conversation_block hs =
     (if hs = [] then []
      else ''Conversation so far:'' @ [nl]
           @ intercalate [nl] (map spec_qa_lines (enumerate 1 hs)) @ [nl, nl])"

definition spec_prompt :: "(string \<times> string) list \<Rightarrow> string \<Rightarrow> (string \<times> string \<times> json) list \<Rightarrow> string" where
  "spec_prompt hs q ps =
     spec_conversation_block hs
     @ ''Context:'' @ [nl] @ intercalate [nl, nl] (map spec_passage_block (enumerate 1 ps))
     @ [nl, nl] @ ''User: '' @ q @ instructions"

definition prompt_ends_with :: "error + string \<Rightarrow> string \<Rightarrow> bool" where
  "prompt_ends_with r t = (case r of Inl e \<Rightarrow> False | Inr p \<Rightarrow> ends_with p t)"

text \<open>
  Worlds and providers used as concrete inputs: the empty store, and providers that
  return one embedding, one passage, and a model response without candidates.
\<close>

definition empty_world :: world where
  "empty_world = \<lparr>kv = [], clock = 0, trace = []\<rparr>"

definition demo_env :: env where
  "demo_env =
     \<lparr>embed_api = (\<lambda>t. Some (JObj [(''data'', JArr [JObj [(''embedding'', JArr [JNum 1, JNum 2])]])])),
      search_api = (\<lambda>v k. Some [\<lparr>payload = passage_json (''T'', ''C'', JNull)\<rparr>]),
      model_api = (\<lambda>p. Some (JObj [(''candidates'', JArr [])])),
      SESSION_TTL = 1800\<rparr>"


text \<open>A store that holds a session with one turn, 60 seconds before it expires.\<close>

definition busy_world :: world where
  "busy_world =
     \<lparr>kv = [(''s1'', stringify (JArr [turn_json (''hi'', ''hello'')]), Some 100)],
      clock = 40, trace = []\<rparr>"


text \<open>
  A store with two sessions, the key of the start-up probe, a cache entry and an expired
  session.
\<close>

definition keys_world :: world where
  "keys_world =
     \<lparr>kv = [(''my-embed:1'', ''[]'', Some 100), (''foo'', ''bar'', None),
            (''session-1'', ''[]'', Some 100), (''embed:683af69a'', ''[1,2]'', Some 100),
            (''old-session'', ''[]'', Some 5)],
      clock = 10, trace = []\<rparr>"

section \<open>Properties of the JSON text functions\<close>

subsection \<open>Numbers\<close>

lemma code_digit_char: "d < 10 \<Longrightarrow> code (digit_char d) = 48 + d"
  by (simp add: code_def digit_char_def)

lemma is_digit_digit_char: "d < 10 \<Longrightarrow> is_digit (digit_char d)"
  by (simp add: is_digit_def code_digit_char)

lemma digit_val_digit_char: "d < 10 \<Longrightarrow> digit_val (digit_char d) = d"
  by (simp add: digit_val_def code_digit_char)

lemma show_nat_nonempty: "show_nat n \<noteq> []"
  by (subst show_nat.simps) simp

lemma show_nat_digits: "c \<in> set (show_nat n) \<Longrightarrow> is_digit c"
proof (induction n arbitrary: c rule: show_nat.induct)
  case (1 n)
  show ?case
  proof (cases "n < 10")
    case True
    with "1.prems" show ?thesis
      by (subst (asm) show_nat.simps) (simp add: is_digit_digit_char)
  next
    case False
    with "1.prems" have "c \<in> set (show_nat (n div 10)) \<or> c = digit_char (n mod 10)"
      by (subst (asm) show_nat.simps) auto
    with False "1.IH" show ?thesis
      by (auto simp: is_digit_digit_char)
  qed
qed

lemma digits_val_snoc: "digits_val (ds @ [c]) = digits_val ds * 10 + digit_val c"
  by (simp add: digits_val_def)

lemma digits_val_show_nat: "digits_val (show_nat n) = n"
proof (induction n rule: show_nat.induct)
  case (1 n)
  show ?case
  proof (cases "n < 10")
    case True
    then show ?thesis
      by (subst show_nat.simps) (simp add: digits_val_def digit_val_digit_char)
  next
    case False
    with "1.IH" show ?thesis
      by (subst show_nat.simps) (simp add: digits_val_snoc digit_val_digit_char)
  qed
qed


lemma show_nat_no_leading_zero: "0 < n \<Longrightarrow> hd (show_nat n) \<noteq> CHR ''0''"
proof (induction n rule: show_nat.induct)
  case (1 n)
  show ?case
  proof (cases "n < 10")
    case True
    with "1.prems" have "code (digit_char n) \<noteq> code (CHR ''0'')"
      by (simp add: code_digit_char) (simp add: code_def)
    then have "digit_char n \<noteq> CHR ''0''" by auto
    with True show ?thesis
      by (subst show_nat.simps) simp
  next
    case False
    then have "0 < n div 10" by simp
    with False "1.IH" have "hd (show_nat (n div 10)) \<noteq> CHR ''0''" by simp
    with False show ?thesis
      by (subst show_nat.simps) (simp add: show_nat_nonempty)
  qed
qed

lemma show_nat_single_zero: "hd (show_nat n) = CHR ''0'' \<Longrightarrow> length (show_nat n) = 1"
proof (cases "n = 0")
  case True
  then show ?thesis by (subst show_nat.simps) simp
next
  case False
  assume "hd (show_nat n) = CHR ''0''"
  with False show_nat_no_leading_zero [of n] show ?thesis by simp
qed

lemma takeWhile_show_nat:
  "rest = [] \<or> \<not> is_digit (hd rest) \<Longrightarrow> takeWhile is_digit (show_nat n @ rest) = show_nat n"
  by (cases rest) (auto simp: takeWhile_append show_nat_digits intro: takeWhile_eq_all_conv [THEN iffD2])

lemma dropWhile_show_nat:
  "rest = [] \<or> \<not> is_digit (hd rest) \<Longrightarrow> dropWhile is_digit (show_nat n @ rest) = rest"
  by (cases rest) (auto simp: dropWhile_append show_nat_digits)

lemma minus_not_digit: "\<not> is_digit (CHR ''-'')"
  by (simp add: is_digit_def code_def)

lemma hd_show_nat_not_minus: "hd (show_nat n) \<noteq> CHR ''-''"
  using show_nat_digits [of "hd (show_nat n)" n] show_nat_nonempty [of n] minus_not_digit
  by (cases "show_nat n") auto

lemma parse_num_show_int:
  assumes "num_stop rest"
  shows "parse_num (show_int i @ rest) = Some (i, rest)"
proof -
  from assms have st: "rest = [] \<or> \<not> is_digit (hd rest)"
    and fr: "\<not> (rest \<noteq> [] \<and> hd rest \<in> {CHR ''.'', CHR ''e'', CHR ''E''})"
    by (auto simp: num_stop_def)
  show ?thesis
  proof (cases "i < 0")
    case True
    let ?n = "nat (- i)"
    have z: "\<not> (hd (show_nat ?n) = CHR ''0'' \<and> 1 < length (show_nat ?n))"
      using show_nat_single_zero [of ?n] by auto
    from True have "show_int i @ rest = CHR ''-'' # show_nat ?n @ rest"
      by (simp add: show_int_def)
    then show ?thesis
      using True st fr z
      by (simp add: parse_num_def takeWhile_show_nat dropWhile_show_nat show_nat_nonempty
            digits_val_show_nat Let_def)
  next
    case False
    let ?n = "nat i"
    have z: "\<not> (hd (show_nat ?n) = CHR ''0'' \<and> 1 < length (show_nat ?n))"
      using show_nat_single_zero [of ?n] by auto
    from False have e: "show_int i @ rest = show_nat ?n @ rest"
      by (simp add: show_int_def)
    have h: "hd (show_nat ?n @ rest) \<noteq> CHR ''-''"
      using hd_show_nat_not_minus [of ?n] show_nat_nonempty [of ?n] by simp
    show ?thesis
      unfolding e using False st fr z h
      by (simp add: parse_num_def takeWhile_show_nat dropWhile_show_nat show_nat_nonempty
            digits_val_show_nat Let_def)
  qed
qed

subsection \<open>String literals\<close>

lemma hex_val_hex_char: "d < 16 \<Longrightarrow> hex_val (hex_char d) = Some d"
  by (auto simp: hex_val_def hex_char_def code_def)

lemma char_of_code: "char_of (code c) = c"
  by (simp add: code_def)

lemma hex4_escape:
  assumes "code c < 32"
  shows "hex4 (CHR ''0'') (CHR ''0'') (hex_char (code c div 16)) (hex_char (code c mod 16)) = Some c"
proof -
  have z: "hex_val (CHR ''0'') = Some 0"
    by (simp add: hex_val_def code_def)
  from assms have a: "hex_val (hex_char (code c div 16)) = Some (code c div 16)"
    by (intro hex_val_hex_char) simp
  have b: "hex_val (hex_char (code c mod 16)) = Some (code c mod 16)"
    by (intro hex_val_hex_char) simp
  have "char_of (code c div 16 * 16 + code c mod 16) = char_of (code c)"
    by simp
  then show ?thesis
    by (simp add: hex4_def z a b char_of_code)
qed

lemma parse_str_escape: "parse_str (escape_char c @ t) = cons_fst c (parse_str t)"
proof -
  consider (q) "c = dq" | (b) "c = bsl" | (c8) "c = CHR 0x08" | (c9) "c = CHR 0x09"
    | (ca) "c = CHR 0x0A" | (cc) "c = CHR 0x0C" | (cd) "c = CHR 0x0D"
    | (ctl) "c \<noteq> dq" "c \<noteq> bsl" "c \<noteq> CHR 0x08" "c \<noteq> CHR 0x09" "c \<noteq> CHR 0x0A"
        "c \<noteq> CHR 0x0C" "c \<noteq> CHR 0x0D" "code c < 32"
    | (plain) "c \<noteq> dq" "c \<noteq> bsl" "\<not> code c < 32"
    by (cases "code c < 32") auto
  then show ?thesis
  proof cases
    case q then show ?thesis by (simp add: escape_char_def unescape_def dq_def bsl_def)
  next
    case b then show ?thesis by (simp add: escape_char_def unescape_def dq_def bsl_def)
  next
    case c8 then show ?thesis by (simp add: escape_char_def unescape_def dq_def bsl_def)
  next
    case c9 then show ?thesis by (simp add: escape_char_def unescape_def dq_def bsl_def)
  next
    case ca then show ?thesis by (simp add: escape_char_def unescape_def dq_def bsl_def)
  next
    case cc then show ?thesis by (simp add: escape_char_def unescape_def dq_def bsl_def)
  next
    case cd then show ?thesis by (simp add: escape_char_def unescape_def dq_def bsl_def)
  next
    case ctl
    have e: "escape_char c = [bsl, CHR ''u'', CHR ''0'', CHR ''0'', hex_char (code c div 16), hex_char (code c mod 16)]"
      using ctl by (simp add: escape_char_def)
    show ?thesis
      unfolding e using hex4_escape [OF ctl(8)]
      by (simp add: dq_def bsl_def)
  next
    case plain
    from plain(3) have "c \<noteq> CHR 0x08" "c \<noteq> CHR 0x09" "c \<noteq> CHR 0x0A" "c \<noteq> CHR 0x0C" "c \<noteq> CHR 0x0D"
      by (auto simp: code_def)
    with plain show ?thesis by (simp add: escape_char_def)
  qed
qed

lemma parse_str_quote_body:
  "parse_str (concat (map escape_char s) @ dq # rest) = Some (s, rest)"
  by (induction s) (simp_all add: parse_str_escape cons_fst_def)

subsection \<open>Parsing what was serialized\<close>

lemma update_fresh: "k \<notin> fst ` set al \<Longrightarrow> AList.update k v al = al @ [(k, v)]"
  by (induction al) auto

lemma foldl_update_fresh:
  "distinct (map fst kvs) \<Longrightarrow> fst ` set acc \<inter> fst ` set kvs = {} \<Longrightarrow>
   foldl (\<lambda>acc (k, v). AList.update k v acc) acc kvs = acc @ kvs"
proof (induction kvs arbitrary: acc)
  case Nil
  then show ?case by simp
next
  case (Cons kv kvs)
  obtain k v where kv: "kv = (k, v)" by (cases kv)
  from Cons.prems kv have fresh: "k \<notin> fst ` set acc" by auto
  have "foldl (\<lambda>acc (k, v). AList.update k v acc) (acc @ [(k, v)]) kvs = (acc @ [(k, v)]) @ kvs"
    using Cons.prems kv by (intro Cons.IH) auto
  with fresh kv show ?case by (simp add: update_fresh)
qed

lemma assign_all_distinct: "distinct (map fst kvs) \<Longrightarrow> assign_all kvs = kvs"
  using foldl_update_fresh [of kvs "[]"] by (simp add: assign_all_def)

lemma digit_value_start: "is_digit c \<Longrightarrow> value_start c"
  by (auto simp: value_start_def is_digit_def is_ws_def code_def)

lemma hd_show_int: "\<exists>c r. show_int i = c # r \<and> (c = CHR ''-'' \<or> is_digit c)"
proof (cases "i < 0")
  case True
  then show ?thesis by (simp add: show_int_def)
next
  case False
  obtain c r where cr: "show_nat (nat i) = c # r"
    using show_nat_nonempty [of "nat i"] by (cases "show_nat (nat i)") auto
  then have "is_digit c" using show_nat_digits [of c "nat i"] by simp
  with False cr show ?thesis by (simp add: show_int_def)
qed

lemma stringify_start: "\<exists>c r. stringify v = c # r \<and> value_start c"
proof (cases v)
  case (JNum i)
  obtain c r where "show_int i = c # r" "c = CHR ''-'' \<or> is_digit c"
    using hd_show_int by blast
  moreover have "value_start (CHR ''-'')" by (simp add: value_start_def is_ws_def)
  ultimately show ?thesis using JNum digit_value_start by auto
qed (auto simp: value_start_def is_ws_def quote_def dq_def)

lemma stringify_nonempty: "stringify v \<noteq> []"
  using stringify_start [of v] by auto

lemma skip_ws_start: "value_start c \<Longrightarrow> skip_ws (c # r) = c # r"
  by (simp add: skip_ws_def value_start_def)

lemma skip_ws_punct:
  "skip_ws (CHR '','' # r) = CHR '','' # r"
  "skip_ws (CHR '']'' # r) = CHR '']'' # r"
  "skip_ws (CHR ''}'' # r) = CHR ''}'' # r"
  "skip_ws (CHR '':'' # r) = CHR '':'' # r"
  "skip_ws (dq # r) = dq # r"
  by (simp_all add: skip_ws_def is_ws_def dq_def)

lemma num_stop_punct:
  "num_stop (CHR '','' # r)" "num_stop (CHR '']'' # r)" "num_stop (CHR ''}'' # r)" "num_stop []"
  by (simp_all add: num_stop_def is_digit_def code_def)

lemma length_intercalate_Cons:
  "xs \<noteq> [] \<Longrightarrow> length (intercalate sep (x # xs)) = length x + length sep + length (intercalate sep xs)"
  by (cases xs) simp_all

lemma intercalate_Cons_append:
  "xs \<noteq> [] \<Longrightarrow> intercalate sep (x # xs) @ t = x @ sep @ intercalate sep xs @ t"
  by (cases xs) simp_all

lemma parse_elems_ok:
  assumes "\<And>x n rest. x \<in> set xs \<Longrightarrow> 2 * length (stringify x) < n \<Longrightarrow> num_stop rest \<Longrightarrow>
             parse_val n (stringify x @ rest) = Inr (x, rest)"
    and "xs \<noteq> []"
    and "2 * length (intercalate '','' (map stringify xs)) + 1 < n"
  shows "parse_elems n (intercalate '','' (map stringify xs) @ CHR '']'' # rest) = Inr (xs, rest)"
  using assms
proof (induction xs arbitrary: n)
  case Nil
  then show ?case by simp
next
  case (Cons x xs)
  from Cons.prems(3) obtain m where n: "n = Suc m" by (cases n) auto
  show ?case
  proof (cases "xs = []")
    case True
    with Cons.prems(3) n have fuel: "2 * length (stringify x) < m" by simp
    have "parse_val m (stringify x @ CHR '']'' # rest) = Inr (x, CHR '']'' # rest)"
      using Cons.prems(1) [of x m "CHR '']'' # rest"] fuel by (simp add: num_stop_punct)
    with True n show ?thesis by (simp add: skip_ws_punct)
  next
    case False
    let ?tail = "intercalate '','' (map stringify xs) @ CHR '']'' # rest"
    from False have len: "length (intercalate '','' (map stringify (x # xs)))
        = length (stringify x) + 1 + length (intercalate '','' (map stringify xs))"
      by (simp add: length_intercalate_Cons)
    have ne: "1 \<le> length (stringify x)"
      using stringify_nonempty [of x] by (cases "stringify x") auto
    from Cons.prems(3) n len have fuel: "2 * length (stringify x) < m" by simp
    from Cons.prems(3) n len ne
    have fuel2: "2 * length (intercalate '','' (map stringify xs)) + 1 < m" by simp
    have unfold_text: "intercalate '','' (map stringify (x # xs)) @ CHR '']'' # rest
        = stringify x @ CHR '','' # ?tail"
      using False by (simp add: intercalate_Cons_append)
    have v: "parse_val m (stringify x @ CHR '','' # ?tail) = Inr (x, CHR '','' # ?tail)"
      using Cons.prems(1) [of x m "CHR '','' # ?tail"] fuel by (simp add: num_stop_punct)
    have r: "parse_elems m ?tail = Inr (xs, rest)"
      using Cons.prems(1) False fuel2 by (intro Cons.IH) auto
    show ?thesis
      unfolding unfold_text n using v r by (simp add: skip_ws_punct)
  qed
qed

lemma member_text_append:
  "member_text (k, v) @ t = dq # concat (map escape_char k) @ dq # CHR '':'' # stringify v @ t"
  by (simp add: member_text_def quote_def)

lemma length_member_text: "length (member_text (k, v)) \<ge> length (stringify v) + 3"
  by (simp add: member_text_def quote_def)

lemma parse_members_ok:
  assumes "\<And>k x n rest. (k, x) \<in> set kvs \<Longrightarrow> 2 * length (stringify x) < n \<Longrightarrow> num_stop rest \<Longrightarrow>
             parse_val n (stringify x @ rest) = Inr (x, rest)"
    and "kvs \<noteq> []"
    and "2 * length (intercalate '','' (map member_text kvs)) + 1 < n"
  shows "parse_members n (intercalate '','' (map member_text kvs) @ CHR ''}'' # rest) = Inr (kvs, rest)"
  using assms
proof (induction kvs arbitrary: n)
  case Nil
  then show ?case by simp
next
  case (Cons kv kvs)
  obtain k x where kv: "kv = (k, x)" by (cases kv)
  from Cons.prems(3) obtain m where n: "n = Suc m" by (cases n) auto
  have lm: "length (stringify x) + 3 \<le> length (member_text (k, x))"
    by (rule length_member_text)
  show ?case
  proof (cases "kvs = []")
    case True
    with Cons.prems(3) n kv lm have fuel: "2 * length (stringify x) < m" by simp
    have v: "parse_val m (stringify x @ CHR ''}'' # rest) = Inr (x, CHR ''}'' # rest)"
      using Cons.prems(1) [of k x m "CHR ''}'' # rest"] kv fuel by (simp add: num_stop_punct)
    show ?thesis
      using True n kv v
      by (simp add: member_text_append skip_ws_punct parse_str_quote_body)
  next
    case False
    let ?tail = "intercalate '','' (map member_text kvs) @ CHR ''}'' # rest"
    from False have len: "length (intercalate '','' (map member_text (kv # kvs)))
        = length (member_text kv) + 1 + length (intercalate '','' (map member_text kvs))"
      by (simp add: length_intercalate_Cons)
    from Cons.prems(3) n len kv lm have fuel: "2 * length (stringify x) < m" by simp
    from Cons.prems(3) n len kv lm
    have fuel2: "2 * length (intercalate '','' (map member_text kvs)) + 1 < m" by simp
    have unfold_text: "intercalate '','' (map member_text (kv # kvs)) @ CHR ''}'' # rest
        = member_text (k, x) @ CHR '','' # ?tail"
      using False kv by (simp add: intercalate_Cons_append)
    have v: "parse_val m (stringify x @ CHR '','' # ?tail) = Inr (x, CHR '','' # ?tail)"
      using Cons.prems(1) [of k x m "CHR '','' # ?tail"] kv fuel by (simp add: num_stop_punct)
    have r: "parse_members m ?tail = Inr (kvs, rest)"
      using Cons.prems(1) False fuel2 by (intro Cons.IH) auto
    show ?thesis
      unfolding unfold_text n using v r kv
      by (simp add: member_text_append skip_ws_punct parse_str_quote_body)
  qed
qed

lemma stringify_JObj: "stringify (JObj kvs) = CHR ''{'' # intercalate '','' (map member_text kvs) @ ''}''"
proof -
  have "(\<lambda>(k, v). quote k @ '':'' @ stringify v) = member_text"
    by (auto simp: member_text_def fun_eq_iff)
  then show ?thesis by simp
qed

lemma parse_val_stringify:
  "wf_json v \<Longrightarrow> 2 * length (stringify v) < n \<Longrightarrow> num_stop rest \<Longrightarrow>
   parse_val n (stringify v @ rest) = Inr (v, rest)"
proof (induction v arbitrary: n rest)
  case JNull
  then obtain m where "n = Suc m" by (cases n) auto
  then show ?case by (simp add: skip_ws_def is_ws_def dq_def is_digit_def code_def)
next
  case (JBool b)
  then obtain m where "n = Suc m" by (cases n) auto
  then show ?case by (cases b) (simp_all add: skip_ws_def is_ws_def dq_def is_digit_def code_def)
next
  case (JNum i)
  then obtain m where n: "n = Suc m" by (cases n) auto
  obtain c r where cr: "show_int i = c # r" "c = CHR ''-'' \<or> is_digit c"
    using hd_show_int by blast
  then have vs: "value_start c"
    using digit_value_start by (auto simp: value_start_def is_ws_def)
  from cr(2) have nb: "c \<noteq> CHR ''['' \<and> c \<noteq> CHR ''{'' \<and> c \<noteq> dq"
    by (auto simp: is_digit_def code_def dq_def)
  have "parse_num (c # r @ rest) = Some (i, rest)"
    using parse_num_show_int [OF JNum.prems(3), of i] cr(1) by simp
  with n cr vs nb show ?case
    by (simp add: skip_ws_start)
next
  case (JStr s)
  then obtain m where n: "n = Suc m" by (cases n) auto
  then show ?case
    by (simp add: quote_def skip_ws_punct parse_str_quote_body) (simp add: dq_def)
next
  case (JArr xs)
  then obtain m where n: "n = Suc m" by (cases n) auto
  show ?case
  proof (cases "xs = []")
    case True
    with n show ?thesis by (simp add: skip_ws_def is_ws_def)
  next
    case False
    let ?body = "intercalate '','' (map stringify xs)"
    from False obtain x ys where xs: "xs = x # ys" by (cases xs) auto
    obtain c r where c: "stringify x = c # r" "value_start c"
      using stringify_start by blast
    then have "\<exists>r'. ?body @ CHR '']'' # rest = c # r'"
      using xs by (cases ys) auto
    then obtain r' where body: "?body @ CHR '']'' # rest = c # r'" ..
    have el: "parse_elems m (?body @ CHR '']'' # rest) = Inr (xs, rest)"
    proof (rule parse_elems_ok)
      fix x k t assume "x \<in> set xs" "2 * length (stringify x) < k" "num_stop t"
      with JArr.IH [of x k t] JArr.prems(1)
      show "parse_val k (stringify x @ t) = Inr (x, t)"
        by (simp add: list_all_iff)
    next
      show "xs \<noteq> []" by fact
    next
      from JArr.prems(2) n show "2 * length ?body + 1 < m" by simp
    qed
    have "parse_val (Suc m) (CHR ''['' # ?body @ CHR '']'' # rest) = Inr (JArr xs, rest)"
      using el c(2) unfolding body
      by (simp add: skip_ws_start) (simp add: skip_ws_def is_ws_def value_start_def)
    with n show ?thesis by simp
  qed
next
  case (JObj kvs)
  then obtain m where n: "n = Suc m" by (cases n) auto
  from JObj.prems(1) have dist: "distinct (map fst kvs)" by simp
  show ?case
  proof (cases "kvs = []")
    case True
    with n show ?thesis by (simp add: skip_ws_def is_ws_def assign_all_def)
  next
    case False
    let ?body = "intercalate '','' (map member_text kvs)"
    from False obtain kv ys where kvs: "kvs = kv # ys" by (cases kvs) auto
    have "\<exists>r'. ?body @ CHR ''}'' # rest = dq # r'"
      using kvs by (cases ys; cases kv) (auto simp: member_text_def quote_def)
    then obtain r' where body: "?body @ CHR ''}'' # rest = dq # r'" ..
    have mem: "parse_members m (?body @ CHR ''}'' # rest) = Inr (kvs, rest)"
    proof (rule parse_members_ok)
      fix k x j t assume a: "(k, x) \<in> set kvs" "2 * length (stringify x) < j" "num_stop t"
      from a(1) JObj.prems(1) have "wf_json x" by (auto simp: list_all_iff)
      with a JObj.IH [of "(k, x)" x j t]
      show "parse_val j (stringify x @ t) = Inr (x, t)"
        by simp
    next
      show "kvs \<noteq> []" by fact
    next
      from JObj.prems(2) [unfolded stringify_JObj] n show "2 * length ?body + 1 < m" by simp
    qed
    have "parse_val (Suc m) (CHR ''{'' # ?body @ CHR ''}'' # rest) = Inr (JObj kvs, rest)"
      using mem dist unfolding body
      by (simp add: skip_ws_punct assign_all_distinct)
        (simp add: skip_ws_def is_ws_def dq_def assign_all_distinct)
    with n show ?thesis unfolding stringify_JObj by simp
  qed
qed

lemma json_parse_stringify: "wf_json v \<Longrightarrow> json_parse (stringify v) = Inr v"
  using parse_val_stringify [of v "2 * length (stringify v) + 1" "[]"]
  by (simp add: json_parse_def num_stop_def skip_ws_def)

subsection \<open>The fuel of the parser is never used up\<close>

lemma length_skip_ws: "length (skip_ws cs) \<le> length cs"
  by (simp add: skip_ws_def length_dropWhile_le)

lemma skip_ws_Cons_length: "skip_ws cs = c # r \<Longrightarrow> length r < length cs"
  using length_skip_ws [of cs] by simp

lemma cons_fst_Some: "cons_fst c p = Some (s, r) \<Longrightarrow> \<exists>s'. p = Some (s', r)"
  by (auto simp: cons_fst_def split: option.splits)

lemma parse_str_u:
  "parse_str (bsl # CHR ''u'' # u) = (case u of
                  h1 # h2 # h3 # h4 # r' \<Rightarrow>
                    (case hex4 h1 h2 h3 h4 of
                       None \<Rightarrow> None
                     | Some ch \<Rightarrow> cons_fst ch (parse_str r'))
                | _ \<Rightarrow> None)"
  by (simp add: dq_def bsl_def)

lemma parse_str_u_Some:
  assumes "parse_str (bsl # CHR ''u'' # u) = Some (s, r)"
  shows "\<exists>h1 h2 h3 h4 u' ch. u = h1 # h2 # h3 # h4 # u' \<and> cons_fst ch (parse_str u') = Some (s, r)"
proof -
  note a = assms [unfolded parse_str_u]
  from a obtain h1 u1 where u1: "u = h1 # u1" by (cases u) simp_all
  from a u1 obtain h2 u2 where u2: "u1 = h2 # u2" by (cases u1) simp_all
  from a u1 u2 obtain h3 u3 where u3: "u2 = h3 # u3" by (cases u2) simp_all
  from a u1 u2 u3 obtain h4 u4 where u4: "u3 = h4 # u4" by (cases u3) simp_all
  from a u1 u2 u3 u4 obtain ch where "cons_fst ch (parse_str u4) = Some (s, r)"
    by (cases "hex4 h1 h2 h3 h4") simp_all
  with u1 u2 u3 u4 show ?thesis by blast
qed

lemma parse_str_shorter: "parse_str cs = Some (s, r) \<Longrightarrow> length r < length cs"
proof (induction "length cs" arbitrary: cs s r rule: less_induct)
  case less
  from less.prems obtain c t where cs: "cs = c # t" by (cases cs) auto
  show ?case
  proof (cases "c = dq")
    case True
    with less.prems cs show ?thesis by simp
  next
    case ndq: False
    show ?thesis
    proof (cases "c = bsl")
      case True
      with ndq less.prems cs obtain e u where t: "t = e # u"
        by (cases t) auto
      show ?thesis
      proof (cases "e = CHR ''u''")
        case isu: True
        from less.prems cs t True isu
        have "parse_str (bsl # CHR ''u'' # u) = Some (s, r)" by simp
        then obtain h1 h2 h3 h4 u' ch where
          u: "u = h1 # h2 # h3 # h4 # u'"
          and p: "cons_fst ch (parse_str u') = Some (s, r)"
          using parse_str_u_Some by blast
        from cons_fst_Some [OF p] obtain s' where q: "parse_str u' = Some (s', r)" ..
        have "length u' < length cs" using cs t u by simp
        then have "length r < length u'" using q by (rule less.hyps)
        with cs t u show ?thesis by simp
      next
        case nu: False
        from less.prems cs t True
        have "parse_str (bsl # e # u) = Some (s, r)" by simp
        with nu obtain ch where
          p: "cons_fst ch (parse_str u) = Some (s, r)"
          by (cases "unescape e") (simp_all add: dq_def bsl_def)
        from cons_fst_Some [OF p] obtain s' where q: "parse_str u = Some (s', r)" ..
        have "length u < length cs" using cs t by simp
        then have "length r < length u" using q by (rule less.hyps)
        with cs t show ?thesis by simp
      qed
    next
      case False
      with ndq less.prems cs have p: "cons_fst c (parse_str t) = Some (s, r)"
        by (auto split: if_splits)
      from cons_fst_Some [OF p] obtain s' where q: "parse_str t = Some (s', r)" ..
      have "length t < length cs" using cs by simp
      then have "length r < length t" using q by (rule less.hyps)
      with cs show ?thesis by simp
    qed
  qed
qed

lemma parse_num_shorter: "parse_num cs = Some (i, r) \<Longrightarrow> length r < length cs"
proof -
  assume a: "parse_num cs = Some (i, r)"
  let ?neg = "cs \<noteq> [] \<and> hd cs = CHR ''-''"
  let ?t = "if ?neg then tl cs else cs"
  from a have ne: "takeWhile is_digit ?t \<noteq> []" and r: "r = dropWhile is_digit ?t"
    by (auto simp: parse_num_def Let_def split: if_splits)
  have "length (takeWhile is_digit ?t) + length (dropWhile is_digit ?t) = length ?t"
    by (metis length_append takeWhile_dropWhile_id)
  with ne r have "length r < length ?t" by (cases "takeWhile is_digit ?t") auto
  moreover have "length ?t \<le> length cs" by simp
  ultimately show ?thesis by simp
qed

lemma val_step:
  assumes e: "elems_ok n" and m: "members_ok n"
  shows "val_ok (Suc n)"
  unfolding val_ok_def
proof (intro allI impI)
  fix cs :: string assume f: "2 * length cs < Suc n"
  show "parse_val (Suc n) cs \<noteq> Inl NoFuel \<and>
        (\<forall>v r. parse_val (Suc n) cs = Inr (v, r) \<longrightarrow> length r < length cs)"
  proof (cases "skip_ws cs")
    case Nil
    then show ?thesis by simp
  next
    case (Cons c r)
    then have lr: "length r < length cs" by (rule skip_ws_Cons_length)
    with f have fr: "2 * length r + 1 < n" by simp
    from e fr have E: "parse_elems n r \<noteq> Inl NoFuel"
      "\<And>v t. parse_elems n r = Inr (v, t) \<Longrightarrow> length t < length r"
      by (auto simp: elems_ok_def)
    from m fr have M: "parse_members n r \<noteq> Inl NoFuel"
      "\<And>v t. parse_members n r = Inr (v, t) \<Longrightarrow> length t < length r"
      by (auto simp: members_ok_def)
    have S: "\<And>s t. parse_str r = Some (s, t) \<Longrightarrow> length t < length r"
      by (rule parse_str_shorter)
    have N: "\<And>i t. parse_num (c # r) = Some (i, t) \<Longrightarrow> length t < length (c # r)"
      by (rule parse_num_shorter)
    have W: "\<And>d t. skip_ws r = d # t \<Longrightarrow> length t < length r"
      by (rule skip_ws_Cons_length)
    consider (arr) "c = CHR ''[''" | (obj) "c \<noteq> CHR ''[''" "c = CHR ''{''"
      | (str) "c \<noteq> CHR ''[''" "c \<noteq> CHR ''{''" "c = dq"
      | (num) "c \<noteq> CHR ''[''" "c \<noteq> CHR ''{''" "c \<noteq> dq" "c = CHR ''-'' \<or> is_digit c"
      | (lit) "c \<noteq> CHR ''[''" "c \<noteq> CHR ''{''" "c \<noteq> dq" "\<not> (c = CHR ''-'' \<or> is_digit c)"
      by blast
    then show ?thesis
    proof cases
      case arr
      show ?thesis
      proof (cases "skip_ws r")
        case Nil
        with Cons arr show ?thesis by simp
      next
        case inner: (Cons d t)
        then have lt: "length t < length r" by (rule W)
        show ?thesis
        proof (cases "parse_elems n r")
          case (Inl a)
          with E(1) Cons arr inner lr lt show ?thesis by simp
        next
          case (Inr q)
          obtain vs u where q: "q = (vs, u)" by (cases q)
          with Inr E(2) have "length u < length r" by simp
          with Inr q Cons arr inner lr lt show ?thesis by simp
        qed
      qed
    next
      case obj
      show ?thesis
      proof (cases "skip_ws r")
        case Nil
        with Cons obj show ?thesis by simp
      next
        case inner: (Cons d t)
        then have lt: "length t < length r" by (rule W)
        show ?thesis
        proof (cases "parse_members n r")
          case (Inl a)
          with M(1) Cons obj inner lr lt show ?thesis by simp
        next
          case (Inr q)
          obtain vs u where q: "q = (vs, u)" by (cases q)
          with Inr M(2) have "length u < length r" by simp
          with Inr q Cons obj inner lr lt show ?thesis by simp
        qed
      qed
    next
      case str
      show ?thesis
      proof (cases "parse_str r")
        case None
        with Cons str show ?thesis by simp
      next
        case (Some q)
        obtain k u where q: "q = (k, u)" by (cases q)
        with Some S have "length u < length r" by simp
        with Some q Cons str lr show ?thesis by simp
      qed
    next
      case num
      show ?thesis
      proof (cases "parse_num (c # r)")
        case None
        with Cons num show ?thesis by simp
      next
        case (Some q)
        obtain k u where q: "q = (k, u)" by (cases q)
        with Some N have "length u < length (c # r)" by simp
        with Some q Cons num lr show ?thesis by auto
      qed
    next
      case lit
      with Cons lr show ?thesis
        by (auto split: if_splits)
    qed
  qed
qed

lemma elems_step:
  assumes v: "val_ok n" and e: "elems_ok n"
  shows "elems_ok (Suc n)"
  unfolding elems_ok_def
proof (intro allI impI)
  fix cs :: string assume f: "2 * length cs + 1 < Suc n"
  then have fv: "2 * length cs < n" by simp
  with v have V: "parse_val n cs \<noteq> Inl NoFuel"
    "\<And>x t. parse_val n cs = Inr (x, t) \<Longrightarrow> length t < length cs"
    by (auto simp: val_ok_def)
  show "parse_elems (Suc n) cs \<noteq> Inl NoFuel \<and>
        (\<forall>v r. parse_elems (Suc n) cs = Inr (v, r) \<longrightarrow> length r < length cs)"
  proof (cases "parse_val n cs")
    case (Inl a)
    with V(1) show ?thesis by simp
  next
    case (Inr p)
    obtain x t where p: "p = (x, t)" by (cases p)
    with Inr V(2) have lt: "length t < length cs" by simp
    show ?thesis
    proof (cases "skip_ws t")
      case Nil
      with Inr p show ?thesis by simp
    next
      case (Cons d t')
      then have lt': "length t' < length t" by (rule skip_ws_Cons_length)
      with lt fv have "2 * length t' + 1 < n" by simp
      with e have E: "parse_elems n t' \<noteq> Inl NoFuel"
        "\<And>v u. parse_elems n t' = Inr (v, u) \<Longrightarrow> length u < length t'"
        by (auto simp: elems_ok_def)
      show ?thesis
      proof (cases "parse_elems n t'")
        case (Inl a)
        with E(1) Inr p Cons lt lt' show ?thesis by simp
      next
        case rest: (Inr q)
        obtain vs u where q: "q = (vs, u)" by (cases q)
        with rest E(2) have "length u < length t'" by simp
        with rest q Inr p Cons lt lt' show ?thesis by simp
      qed
    qed
  qed
qed

lemma members_step:
  assumes v: "val_ok n" and m: "members_ok n"
  shows "members_ok (Suc n)"
  unfolding members_ok_def
proof (intro allI impI)
  fix cs :: string assume f: "2 * length cs + 1 < Suc n"
  show "parse_members (Suc n) cs \<noteq> Inl NoFuel \<and>
        (\<forall>v r. parse_members (Suc n) cs = Inr (v, r) \<longrightarrow> length r < length cs)"
  proof (cases "skip_ws cs")
    case Nil
    then show ?thesis by simp
  next
    case c1: (Cons d r)
    then have l1: "length r < length cs" by (rule skip_ws_Cons_length)
    show ?thesis
    proof (cases "d = dq")
      case False
      with c1 show ?thesis by simp
    next
      case isq: True
      show ?thesis
      proof (cases "parse_str r")
        case None
        with c1 isq show ?thesis by simp
      next
        case (Some p)
        obtain k r1 where p: "p = (k, r1)" by (cases p)
        with Some have l2: "length r1 < length r" by (simp add: parse_str_shorter)
        show ?thesis
        proof (cases "skip_ws r1")
          case Nil
          with c1 isq Some p show ?thesis by simp
        next
          case c2: (Cons e r2)
          then have l3: "length r2 < length r1" by (rule skip_ws_Cons_length)
          show ?thesis
          proof (cases "e = CHR '':''")
            case False
            with c1 isq Some p c2 show ?thesis by simp
          next
            case colon: True
            from f l1 l2 l3 have "2 * length r2 < n" by simp
            with v have V: "parse_val n r2 \<noteq> Inl NoFuel"
              "\<And>x t. parse_val n r2 = Inr (x, t) \<Longrightarrow> length t < length r2"
              by (auto simp: val_ok_def)
            show ?thesis
            proof (cases "parse_val n r2")
              case (Inl a)
              with V(1) c1 isq Some p c2 colon show ?thesis by simp
            next
              case (Inr q)
              obtain x r3 where q: "q = (x, r3)" by (cases q)
              with Inr V(2) have l4: "length r3 < length r2" by simp
              show ?thesis
              proof (cases "skip_ws r3")
                case Nil
                with c1 isq Some p c2 colon Inr q show ?thesis by simp
              next
                case c3: (Cons g r4)
                then have l5: "length r4 < length r3" by (rule skip_ws_Cons_length)
                with f l1 l2 l3 l4 have "2 * length r4 + 1 < n" by simp
                with m have M: "parse_members n r4 \<noteq> Inl NoFuel"
                  "\<And>v u. parse_members n r4 = Inr (v, u) \<Longrightarrow> length u < length r4"
                  by (auto simp: members_ok_def)
                show ?thesis
                proof (cases "parse_members n r4")
                  case (Inl a)
                  with M(1) c1 isq Some p c2 colon Inr q c3 l1 l2 l3 l4 l5 show ?thesis by simp
                next
                  case more: (Inr w)
                  obtain kvs u where w: "w = (kvs, u)" by (cases w)
                  with more M(2) have "length u < length r4" by simp
                  with more w c1 isq Some p c2 colon Inr q c3 l1 l2 l3 l4 l5 show ?thesis by simp
                qed
              qed
            qed
          qed
        qed
      qed
    qed
  qed
qed

lemma parsers_ok: "val_ok n \<and> elems_ok n \<and> members_ok n"
proof (induction n)
  case 0
  show ?case by (simp add: val_ok_def elems_ok_def members_ok_def)
next
  case (Suc n)
  then show ?case by (simp add: val_step elems_step members_step)
qed

lemma json_parse_fuel: "json_parse s \<noteq> Inl NoFuel"
proof -
  have "val_ok (2 * length s + 1)" using parsers_ok by blast
  then have "parse_val (2 * length s + 1) s \<noteq> Inl NoFuel"
    by (simp add: val_ok_def)
  then show ?thesis
    by (auto simp: json_parse_def split: sum.splits)
qed

section \<open>Embedding of blank text, and the cache keys\<close>

text \<open>
  C7. For a text that is empty or made of white space only, \<open>getEmbedding\<close> returns
  \<open>null\<close> and the world is the one it started from: the trace has no new event, so
  neither the store nor the embedding provider was called.
\<close>

theorem getEmbedding_blank:
  "list_all is_js_space text \<Longrightarrow> getEmbedding E text w = (Inr JNull, w)"
  by (simp add: getEmbedding_def ret_def)

theorem getEmbedding_blank_witness:
  "list_all is_js_space ''   '' \<and> getEmbedding demo_env ''   '' empty_world = (Inr JNull, empty_world)
   \<and> list_all is_js_space [] \<and> getEmbedding demo_env [] empty_world = (Inr JNull, empty_world)"
proof -
  have a: "list_all is_js_space ''   ''"
    by (simp add: is_js_space_def code_def)
  have b: "list_all is_js_space []" by simp
  show ?thesis
    using a b getEmbedding_blank [OF a, of demo_env empty_world]
      getEmbedding_blank [OF b, of demo_env empty_world]
    by simp
qed






section \<open>What a chat turn may write\<close>


























section \<open>A failed chat turn\<close>

lemmas char_eval = char_of_def bit_Suc_0_iff








lemma show_nat_1: "show_nat (Suc 0) = ''1''"
  by (simp add: show_nat.simps digit_char_def char_eval)

























section \<open>Cache keys of retrieval; creating a session\<close>



lemma lookup_after_set:
  "0 < ttl \<Longrightarrow> lookup (snd (client_set k v ttl w)) k = Some v"
  by (simp add: client_set_def lookup_def log_event_def live_def update_conv')

lemma json_parse_empty_array: "json_parse ''[]'' = Inr (JArr [])"
  using json_parse_stringify [of "JArr []"] by simp

text \<open>
  C9. \<open>createSession\<close> with a given, non-empty identifier and a positive expiry sends one
  command, the \<open>SET\<close> of the empty array with that expiry, whatever was stored before:
  afterwards \<open>getSession\<close> reads the empty array and the key expires \<open>ttl\<close> seconds
  from now.
\<close>

theorem createSession_overwrites:
  assumes "sid \<noteq> []" and "0 < ttl"
  shows "fst (createSession uuid (Some sid) ttl w) = Inr sid
       \<and> trace (snd (createSession uuid (Some sid) ttl w)) = trace w @ [RedisSet sid ''[]'' (Some ttl)]
       \<and> stored (snd (createSession uuid (Some sid) ttl w)) sid = Some (''[]'', Some (clock w + nat ttl))
       \<and> fst (getSession sid (snd (createSession uuid (Some sid) ttl w))) = Inr (JArr [])"
proof -
  let ?w = "snd (createSession uuid (Some sid) ttl w)"
  from assms have c: "createSession uuid (Some sid) ttl w = (Inr sid, snd (client_set sid ''[]'' ttl w))"
    by (simp add: createSession_def effective_id_def await_def ret_def client_set_def)
  from assms(2) have l: "lookup ?w sid = Some ''[]''"
    unfolding c by (simp add: lookup_after_set)
  have g: "fst (getSession sid ?w) = Inr (JArr [])"
    using l by (simp add: getSession_def await_def client_get_def JSON_parse_def ret_def
        json_parse_empty_array)
  from assms(2) have t: "trace ?w = trace w @ [RedisSet sid ''[]'' (Some ttl)]"
    unfolding c by (simp add: client_set_def log_event_def)
  from assms(2) have s: "stored ?w sid = Some (''[]'', Some (clock w + nat ttl))"
    unfolding c by (simp add: client_set_def log_event_def stored_def update_conv')
  from c g t s show ?thesis by simp
qed

theorem createSession_overwrites_witness:
  "''s1'' \<noteq> [] \<and> (0::int) < 1800
   \<and> stored busy_world ''s1'' = Some (stringify (JArr [turn_json (''hi'', ''hello'')]), Some 100)
   \<and> fst (createSession ''u'' (Some ''s1'') 1800 busy_world) = Inr ''s1''
   \<and> stored (snd (createSession ''u'' (Some ''s1'') 1800 busy_world)) ''s1'' = Some (''[]'', Some 1840)
   \<and> fst (getSession ''s1'' (snd (createSession ''u'' (Some ''s1'') 1800 busy_world))) = Inr (JArr [])"
proof -
  have a: "''s1'' \<noteq> []" by simp
  have b: "(0::int) < 1800" by simp
  have c: "stored busy_world ''s1'' = Some (stringify (JArr [turn_json (''hi'', ''hello'')]), Some 100)"
    by (simp add: stored_def busy_world_def)
  have d: "clock busy_world + nat 1800 = 1840"
    by (simp add: busy_world_def)
  from createSession_overwrites [OF a b, of "''u''" busy_world] c d show ?thesis by simp
qed

section \<open>Creating a session and appending to it\<close>






section \<open>The cache\<close>






section \<open>Reading a session; listing the keys\<close>







lemma starts_with_includes: "starts_with k t \<Longrightarrow> str_includes k t"
  by (cases k) (auto simp: starts_with_def)

lemma getAllKeys_result: "getAllKeys w = (Inr (filter key_filter (live_keys w)), log_event RedisKeys w)"
  by (simp add: getAllKeys_def await_def client_keys_def ret_def live_keys_def)

text \<open>
  C8 (as amended). \<open>getAllKeys\<close> returns the live keys of the store, in the store's order,
  without those that contain \<open>embed:\<close> or \<open>retrieve:\<close> anywhere and without those
  shorter than 5 characters. Every key it returns has at least 5 characters and neither
  prefix.
\<close>

theorem getAllKeys_filters:
  "fst (getAllKeys w) = Inr (filter key_filter (live_keys w))
   \<and> (\<forall>k \<in> set (filter key_filter (live_keys w)).
         k \<in> set (live_keys w) \<and> 5 \<le> length k
         \<and> \<not> str_includes k ''embed:'' \<and> \<not> str_includes k ''retrieve:''
         \<and> \<not> starts_with k ''embed:'' \<and> \<not> starts_with k ''retrieve:'')"
proof -
  have "k \<in> set (live_keys w) \<and> 5 \<le> length k
         \<and> \<not> str_includes k ''embed:'' \<and> \<not> str_includes k ''retrieve:''
         \<and> \<not> starts_with k ''embed:'' \<and> \<not> starts_with k ''retrieve:''"
    if "k \<in> set (filter key_filter (live_keys w))" for k
  proof -
    from that have m: "k \<in> set (live_keys w)" and f: "key_filter k" by simp_all
    from f have i: "\<not> str_includes k ''embed:''" "\<not> str_includes k ''retrieve:''"
      and l: "5 \<le> length k"
      by (simp_all add: key_filter_def)
    from i have "\<not> starts_with k ''embed:''" "\<not> starts_with k ''retrieve:''"
      using starts_with_includes by blast+
    with m i l show ?thesis by blast
  qed
  then show ?thesis by (simp add: getAllKeys_result)
qed

lemma live_keys_keys_world:
  "live_keys keys_world = [''my-embed:1'', ''foo'', ''session-1'', ''embed:683af69a'']"
  by (simp add: live_keys_def keys_world_def live_def)

lemma key_filter_examples:
  "\<not> key_filter ''my-embed:1''" "\<not> key_filter ''foo''" "key_filter ''session-1''"
  "\<not> key_filter ''embed:683af69a''"
  by (simp_all add: key_filter_def)

theorem getAllKeys_filters_witness:
  "fst (getAllKeys keys_world) = Inr [''session-1'']
   \<and> ''session-1'' \<in> set (filter key_filter (live_keys keys_world))
   \<and> 5 \<le> length ''session-1'' \<and> \<not> starts_with ''session-1'' ''embed:''"
proof -
  have f: "filter key_filter (live_keys keys_world) = [''session-1'']"
    by (simp add: live_keys_keys_world key_filter_examples)
  from getAllKeys_filters [of keys_world] show ?thesis
    unfolding f by simp
qed

text \<open>
  C8 (as stated) fails for a live key that contains \<open>embed:\<close> without starting with it:
  the filter of the specification keeps \<open>my-embed:1\<close>, \<open>getAllKeys\<close> drops it.
\<close>

theorem getAllKeys_prefix_counterexample:
  "''my-embed:1'' \<in> set (live_keys keys_world) \<and> spec_key_filter ''my-embed:1''
   \<and> filter spec_key_filter (live_keys keys_world) = [''my-embed:1'', ''session-1'']
   \<and> fst (getAllKeys keys_world) = Inr [''session-1'']"
  by (simp add: getAllKeys_result live_keys_keys_world key_filter_examples spec_key_filter_def
        starts_with_def)

section \<open>The prompt\<close>

lemma render_turn_typed: "render_turn i (turn_json t) = Inr (spec_qa_lines (Suc i, t))"
  by (cases t) (simp add: render_turn_def turn_json_def member_def template_def and_then_def
        spec_qa_lines_def)

lemma render_passage_typed: "render_passage i (passage_json p) = Inr (spec_passage_block (Suc i, p))"
  by (cases p) (simp add: render_passage_def passage_json_def member_def template_def and_then_def
        spec_passage_block_def)

lemma map_indexed_turns:
  "map_indexed render_turn i (map turn_json hs) = Inr (map spec_qa_lines (enumerate (Suc i) hs))"
  by (induction hs arbitrary: i) (simp_all add: render_turn_typed and_then_def)

lemma map_indexed_passages:
  "map_indexed render_passage i (map passage_json ps) = Inr (map spec_passage_block (enumerate (Suc i) ps))"
  by (induction ps arbitrary: i) (simp_all add: render_passage_typed and_then_def)

lemma intercalate_nonempty:
  assumes "xs \<noteq> []" and "\<And>x. x \<in> set xs \<Longrightarrow> x \<noteq> []"
  shows "intercalate sep xs \<noteq> []"
proof -
  from assms(1) obtain x ys where xs: "xs = x # ys" by (cases xs) auto
  with assms(2) have "x \<noteq> []" by simp
  with xs show ?thesis by (cases ys) simp_all
qed

lemma spec_qa_lines_nonempty: "spec_qa_lines it \<noteq> []"
  by (simp add: spec_qa_lines_def)

lemma histText_empty_iff:
  "intercalate [nl] (map spec_qa_lines (enumerate (Suc 0) hs)) = [] \<longleftrightarrow> hs = []"
proof (cases "hs = []")
  case True
  then show ?thesis by simp
next
  case False
  then have "map spec_qa_lines (enumerate (Suc 0) hs) \<noteq> []"
    by (cases hs) simp_all
  then have "intercalate [nl] (map spec_qa_lines (enumerate (Suc 0) hs)) \<noteq> []"
    by (rule intercalate_nonempty) (auto simp: spec_qa_lines_nonempty)
  with False show ?thesis by simp
qed

lemma buildPrompt_typed:
  "buildPromptWithHistory (JArr (map turn_json hs)) q (JArr (map passage_json ps))
     = Inr (spec_prompt hs q ps)"
  by (simp add: buildPromptWithHistory_def as_array_def and_then_def map_indexed_turns
        map_indexed_passages Let_def histText_empty_iff spec_prompt_def spec_conversation_block_def)

lemma scenario_prompt:
  "spec_prompt [] ''What is X?'' [(''T'', ''C'', JNull)]
     = ''Context:'' @ [nl] @ ''[Passage 1]'' @ [nl] @ ''Title: T'' @ [nl] @ ''Content: C''
       @ [nl, nl] @ ''User: What is X?'' @ instructions"
  by (simp add: spec_prompt_def spec_conversation_block_def spec_passage_block_def enumerate_eq_zip
        show_nat_1)

text \<open>
  C4 (as amended). \<open>buildPromptWithHistory\<close> is a function of its three arguments. For
  turns and passages with text fields it gives: nothing for an empty history, otherwise
  the line \<open>Conversation so far:\<close>, the turns as \<open>Qi:\<close>/\<open>Ai:\<close> lines numbered from 1 in
  history order and an empty line; then \<open>Context:\<close> and the passages as
  \<open>[Passage i]\<close> blocks with \<open>Title:\<close> and \<open>Content:\<close> lines, numbered from 1 in the
  given order; then \<open>User:\<close> with the query; then the fixed instruction block, which
  ends the prompt with \<open>Answer:\<close>. In the scenario of the specification the prompt is
  the context with the one passage, \<open>User: What is X?\<close> and the instruction block.
\<close>

theorem buildPrompt_layout:
  "buildPromptWithHistory (JArr (map turn_json hs)) q (JArr (map passage_json ps))
     = Inr (spec_conversation_block hs
            @ ''Context:'' @ [nl] @ intercalate [nl, nl] (map spec_passage_block (enumerate 1 ps))
            @ [nl, nl] @ ''User: '' @ q @ instructions)
   \<and> spec_conversation_block [] = []
   \<and> spec_conversation_block (h # hs) =
        ''Conversation so far:'' @ [nl] @ intercalate [nl] (map spec_qa_lines (enumerate 1 (h # hs))) @ [nl, nl]
   \<and> buildPromptWithHistory (JArr []) ''What is X?'' (JArr [passage_json (''T'', ''C'', JNull)])
     = Inr (''Context:'' @ [nl] @ ''[Passage 1]'' @ [nl] @ ''Title: T'' @ [nl] @ ''Content: C''
            @ [nl, nl] @ ''User: What is X?'' @ instructions)
   \<and> ends_with instructions ''Answer:''"
proof -
  have a: "buildPromptWithHistory (JArr (map turn_json hs)) q (JArr (map passage_json ps))
     = Inr (spec_conversation_block hs
            @ ''Context:'' @ [nl] @ intercalate [nl, nl] (map spec_passage_block (enumerate 1 ps))
            @ [nl, nl] @ ''User: '' @ q @ instructions)"
    by (simp add: buildPrompt_typed spec_prompt_def)
  have b: "spec_conversation_block [] = []"
    by (simp add: spec_conversation_block_def)
  have c: "spec_conversation_block (h # hs) =
        ''Conversation so far:'' @ [nl] @ intercalate [nl] (map spec_qa_lines (enumerate 1 (h # hs))) @ [nl, nl]"
    by (simp add: spec_conversation_block_def)
  have d: "buildPromptWithHistory (JArr []) ''What is X?'' (JArr [passage_json (''T'', ''C'', JNull)])
     = Inr (''Context:'' @ [nl] @ ''[Passage 1]'' @ [nl] @ ''Title: T'' @ [nl] @ ''Content: C''
            @ [nl, nl] @ ''User: What is X?'' @ instructions)"
    using buildPrompt_typed [of "[]" "''What is X?''" "[(''T'', ''C'', JNull)]"]
    by (simp only: scenario_prompt list.map)
  have e: "ends_with instructions ''Answer:''"
    by (simp add: ends_with_def instructions_def)
  from a b c d e show ?thesis by blast
qed

text \<open>
  C4 (as stated) fails in its last part: the prompt of the scenario does not end with
  \<open>User: What is X?\<close>, since the instruction block follows the query.
\<close>

theorem buildPrompt_ending_counterexample:
  "\<not> prompt_ends_with
       (buildPromptWithHistory (JArr []) ''What is X?'' (JArr [passage_json (''T'', ''C'', JNull)]))
       ''User: What is X?''"
proof -
  have d: "buildPromptWithHistory (JArr []) ''What is X?'' (JArr [passage_json (''T'', ''C'', JNull)])
     = Inr (''Context:'' @ [nl] @ ''[Passage 1]'' @ [nl] @ ''Title: T'' @ [nl] @ ''Content: C''
            @ [nl, nl] @ ''User: What is X?'' @ instructions)"
    using buildPrompt_typed [of "[]" "''What is X?''" "[(''T'', ''C'', JNull)]"]
    by (simp only: scenario_prompt list.map)
  show ?thesis
    unfolding d by (simp add: prompt_ends_with_def ends_with_def instructions_def)
qed

section \<open>A model response without text\<close>



end
